theory Spec2Isabelle
  imports Complex_Main "HOL-Library.AList"
begin

section \<open>The connection pool of \<^verbatim>\<open>ddbc_bindings.py\<close>\<close>

text \<open>
  A connection is an opaque object of the driver.  The pool calls two of its methods:
  \<^verbatim>\<open>close()\<close> and the liveness probe \<^verbatim>\<open>alloc_statement_handle().free()\<close>.  Either may
  raise; what a given connection does is part of the connection value.  Times are the
  readings of \<^verbatim>\<open>time.monotonic()\<close>, taken as real numbers (rounding of floats is not
  modelled).
\<close>

datatype conn = Conn (conn_id: nat) (probe_raises: bool) (close_raises: bool)

datatype exn =
    DriverError
  | AttributeError string
  | TypeError string
  | IndexError
  | ConverterError

text \<open>
  What a call does that an observer outside can see: taking and releasing
  \<^verbatim>\<open>self._lock\<close> (the \<^verbatim>\<open>with self._lock:\<close> block), and the two driver calls.
\<close>

datatype event = Acquire | Release | Probe conn | Close conn

type_synonym entry = "conn \<times> real"

type_synonym 'a outcome = "(exn + 'a) \<times> event list"

definition close :: "conn \<Rightarrow> unit outcome" where
  "close c = (if close_raises c then Inl DriverError else Inr (), [Close c])"

definition probe :: "conn \<Rightarrow> unit outcome" where
  "probe c = (if probe_raises c then Inl DriverError else Inr (), [Probe c])"

text \<open>\<^verbatim>\<open>try: conn.close()  except Exception: pass\<close>: the call is made, its exception dropped.\<close>

definition close_quietly :: "conn \<Rightarrow> event list" where
  "close_quietly c = (case close c of (Inl _, ev) \<Rightarrow> ev | (Inr _, ev) \<Rightarrow> ev)"

definition after :: "event list \<Rightarrow> 'a \<times> 'b \<times> event list \<Rightarrow> 'a \<times> 'b \<times> event list" where
  "after ev r = (case r of (x, p, tr) \<Rightarrow> (x, p, ev @ tr))"

record pool_state =
  enabled :: bool
  max_size :: int
  idle_timeout :: real
  pools :: "(string \<times> entry list) list"

text \<open>\<^verbatim>\<open>_ConnectionPool.__init__\<close>; the dictionary keeps its keys in insertion order.\<close>

definition init :: pool_state where
  "init = \<lparr>enabled = False, max_size = 100, idle_timeout = 600, pools = []\<rparr>"

definition enable :: "pool_state \<Rightarrow> int \<Rightarrow> real \<Rightarrow> (exn + unit) \<times> pool_state \<times> event list" where
  "enable s m t = (Inr (), s\<lparr>enabled := True, max_size := m, idle_timeout := t\<rparr>, [])"

text \<open>
  \<^verbatim>\<open>disable\<close>: inside the lock, \<^verbatim>\<open>close\<close> is called on every connection of every list,
  each call in its own \<^verbatim>\<open>try\<close>; then the dictionary is cleared.
\<close>

definition disable :: "pool_state \<Rightarrow> (exn + unit) \<times> pool_state \<times> event list" where
  "disable s =
     (Inr (),
      s\<lparr>enabled := False, pools := []\<rparr>,
      Acquire #
        concat (map (\<lambda>(conn_str, conns). concat (map (\<lambda>(c, _). close_quietly c) conns)) (pools s))
        @ [Release])"

text \<open>
  The \<^verbatim>\<open>while pool:\<close> loop of \<^verbatim>\<open>get\<close>.  \<^verbatim>\<open>pool.pop()\<close> takes the last element of the
  list; the list that is left is returned, since the loop works on the list stored in
  the dictionary.
\<close>

function get_loop :: "real \<Rightarrow> real \<Rightarrow> entry list \<Rightarrow> (exn + conn option) \<times> entry list \<times> event list" where
  "get_loop timeout now pool =
     (if pool = [] then (Inr None, pool, [])
      else
        let (c, returned_at) = last pool;
            rest = butlast pool
        in if now - returned_at < timeout then
             (case probe c of
                (Inr _, ev) \<Rightarrow> (Inr (Some c), rest, ev)
              | (Inl _, ev) \<Rightarrow> after (ev @ close_quietly c) (get_loop timeout now rest))
           else after (close_quietly c) (get_loop timeout now rest))"
  by pat_completeness auto
termination
  by (relation "measure (\<lambda>(timeout, now, pool). length pool)") auto

declare get_loop.simps [simp del]

text \<open>
  \<^verbatim>\<open>get\<close>.  With pooling off it returns \<^verbatim>\<open>None\<close> before the lock is taken.  Otherwise
  the rest of the body runs inside \<^verbatim>\<open>with self._lock:\<close>.  \<^verbatim>\<open>self._pools.get(conn_str, [])\<close>
  yields the stored list, or a new empty list that is not stored; \<open>now\<close> is the reading
  of the clock taken once, before the loop.
\<close>

definition get :: "pool_state \<Rightarrow> string \<Rightarrow> real \<Rightarrow> (exn + conn option) \<times> pool_state \<times> event list" where
  "get s conn_str now =
     (if \<not> enabled s then (Inr None, s, [])
      else
        (case map_of (pools s) conn_str of
           None \<Rightarrow> (Inr None, s, [Acquire, Release])
         | Some pool \<Rightarrow>
             (case get_loop (idle_timeout s) now pool of
                (r, rest, tr) \<Rightarrow>
                  (r, s\<lparr>pools := AList.update conn_str rest (pools s)\<rparr>, Acquire # tr @ [Release]))))"

text \<open>
  \<^verbatim>\<open>put\<close>.  With pooling off \<^verbatim>\<open>conn.close()\<close> is called, outside any \<^verbatim>\<open>try\<close> and before
  the lock is taken.  Otherwise, inside \<^verbatim>\<open>with self._lock:\<close>, \<^verbatim>\<open>self._pools[conn_str]\<close>
  stores an empty list under a key that is not there yet; the connection is appended
  with the reading \<open>now\<close> of the clock, or \<^verbatim>\<open>conn.close()\<close> is called, again outside any
  \<^verbatim>\<open>try\<close>: an exception leaves the \<^verbatim>\<open>with\<close> block, which releases the lock, and reaches
  the caller.  Assigning to a key keeps the key's place in the dictionary; a new key
  goes to the end.
\<close>

definition put :: "pool_state \<Rightarrow> string \<Rightarrow> conn \<Rightarrow> real \<Rightarrow> (exn + unit) \<times> pool_state \<times> event list" where
  "put s conn_str c now =
     (if \<not> enabled s then (case close c of (r, ev) \<Rightarrow> (r, s, ev))
      else
        let pool = (case map_of (pools s) conn_str of None \<Rightarrow> [] | Some p \<Rightarrow> p)
        in if int (length pool) < max_size s
           then (Inr (), s\<lparr>pools := AList.update conn_str (pool @ [(c, now)]) (pools s)\<rparr>,
                 [Acquire, Release])
           else (case close c of
                   (r, ev) \<Rightarrow>
                     (r, s\<lparr>pools := AList.update conn_str pool (pools s)\<rparr>, Acquire # ev @ [Release])))"

text \<open>
  \<^verbatim>\<open>self._pools[conn_str]\<close> on the \<^verbatim>\<open>defaultdict(list)\<close>, read only: the list stored under
  a key, the empty list for a key that is not there.
\<close>

definition entries :: "pool_state \<Rightarrow> string \<Rightarrow> entry list" where
  "entries s conn_str = (case map_of (pools s) conn_str of None \<Rightarrow> [] | Some p \<Rightarrow> p)"

text \<open>Every pooled connection, key by key in the order of the dictionary, oldest first.\<close>

definition pooled :: "pool_state \<Rightarrow> conn list" where
  "pooled s = concat (map (\<lambda>(conn_str, conns). map fst conns) (pools s))"

subsection \<open>Callers: sequences of pool operations\<close>

datatype op = Enable int real | Disable | Get string real | Put string conn real

datatype reply = Done "exn + unit" | Got "exn + conn option"

fun step :: "pool_state \<Rightarrow> op \<Rightarrow> reply \<times> pool_state \<times> event list" where
  "step s (Enable m t) = (case enable s m t of (r, s', tr) \<Rightarrow> (Done r, s', tr))"
| "step s Disable = (case disable s of (r, s', tr) \<Rightarrow> (Done r, s', tr))"
| "step s (Get k now) = (case get s k now of (r, s', tr) \<Rightarrow> (Got r, s', tr))"
| "step s (Put k c now) = (case put s k c now of (r, s', tr) \<Rightarrow> (Done r, s', tr))"

text \<open>A caller that goes on after an exception: the replies and traces of all calls, in order.\<close>

fun run :: "pool_state \<Rightarrow> op list \<Rightarrow> pool_state \<times> (reply \<times> event list) list" where
  "run s [] = (s, [])"
| "run s (x # xs) =
     (case step s x of
        (r, s', tr) \<Rightarrow> (case run s' xs of (s'', rs) \<Rightarrow> (s'', (r, tr) # rs)))"

fun is_enable :: "op \<Rightarrow> bool" where
  "is_enable (Enable m t) = True"
| "is_enable x = False"

text \<open>
  A sequence of calls in which no \<^verbatim>\<open>enable\<close> sets a limit that is negative or below the
  number of entries that some key holds at that moment.
\<close>

fun keeps_limit :: "pool_state \<Rightarrow> op \<Rightarrow> bool" where
  "keeps_limit s (Enable m t) = (0 \<le> m \<and> list_all (\<lambda>(k, es). int (length es) \<le> m) (pools s))"
| "keeps_limit s x = True"

fun no_shrink :: "pool_state \<Rightarrow> op list \<Rightarrow> bool" where
  "no_shrink s [] = True"
| "no_shrink s (x # xs) = (keeps_limit s x \<and> no_shrink (fst (snd (step s x))) xs)"

text \<open>What a call answers while pooling is off and the dictionary is empty.\<close>

fun disabled_reply :: "op \<Rightarrow> reply \<times> event list" where
  "disabled_reply (Get k now) = (Got (Inr None), [])"
| "disabled_reply (Put k c now) =
     (Done (if close_raises c then Inl DriverError else Inr ()), [Close c])"
| "disabled_reply Disable = (Done (Inr ()), [Acquire, Release])"
| "disabled_reply (Enable m t) = (Done (Inr ()), [])"

text \<open>
  A trace keeps driver calls out of the lock when no \<^const>\<open>Probe\<close> and no \<^const>\<open>Close\<close>
  stands between an \<^const>\<open>Acquire\<close> and the next \<^const>\<open>Release\<close>; the flag says whether the
  lock is held.
\<close>

fun io_outside_lock :: "bool \<Rightarrow> event list \<Rightarrow> bool" where
  "io_outside_lock held [] = True"
| "io_outside_lock held (Acquire # tr) = io_outside_lock True tr"
| "io_outside_lock held (Release # tr) = io_outside_lock False tr"
| "io_outside_lock held (Probe c # tr) = (\<not> held \<and> io_outside_lock held tr)"
| "io_outside_lock held (Close c # tr) = (\<not> held \<and> io_outside_lock held tr)"

fun is_io :: "event \<Rightarrow> bool" where
  "is_io (Probe c) = True"
| "is_io (Close c) = True"
| "is_io e = False"

section \<open>Rows of \<^verbatim>\<open>row.py\<close>\<close>

text \<open>
  Column values are \<^verbatim>\<open>None\<close>, integers, text and byte strings; on these Python's
  \<^verbatim>\<open>==\<close> is equality of the values.  A character of a \<^typ>\<open>string\<close> is a code point below
  256.  The value sequence of a row is a tuple or a list, which Python never finds equal
  to each other.
\<close>

datatype val = VNone | VInt int | VStr string | VBytes string

datatype seq = PyTuple "val list" | PyList "val list"

fun items :: "seq \<Rightarrow> val list" where
  "items (PyTuple xs) = xs"
| "items (PyList xs) = xs"

type_synonym converter = "val \<Rightarrow> exn + val"

text \<open>
  Of a cursor the row reads the attribute \<^verbatim>\<open>lowercase\<close> (\<^const>\<open>None\<close>: the cursor has
  no such attribute) and \<^verbatim>\<open>connection.get_output_converter\<close>.
\<close>

record cursor =
  lowercase :: "bool option"
  get_output_converter :: "int \<Rightarrow> converter option"

text \<open>A column descriptor \<^verbatim>\<open>desc\<close>: its name \<^verbatim>\<open>desc[0]\<close> and its SQL type \<^verbatim>\<open>desc[1]\<close>.\<close>

record desc =
  col_name :: string
  type_code :: int

record row =
  values_slot :: seq
  column_map :: "(string \<times> int) list option"
  cursor_ref :: "cursor option"

definition Row_init ::
  "cursor option \<Rightarrow> desc option list option \<Rightarrow> seq \<Rightarrow> (string \<times> int) list option \<Rightarrow> row" where
  "Row_init cur description vals cmap =
     \<lparr>values_slot = vals, column_map = cmap, cursor_ref = cur\<rparr>"

text \<open>Indexing a sequence with an integer; a negative index counts from the end.\<close>

definition getitem :: "val list \<Rightarrow> int \<Rightarrow> exn + val" where
  "getitem xs i =
     (if 0 \<le> i \<and> i < int (length xs) then Inr (xs ! nat i)
      else if i < 0 \<and> - int (length xs) \<le> i then Inr (xs ! nat (int (length xs) + i))
      else Inl IndexError)"

definition Row_getitem :: "row \<Rightarrow> int \<Rightarrow> exn + val" where
  "Row_getitem self i = getitem (items (values_slot self)) i"

definition Row_len :: "row \<Rightarrow> nat" where
  "Row_len self = length (items (values_slot self))"

text \<open>\<^verbatim>\<open>str.lower()\<close> on names written in ASCII.\<close>

definition lower_char :: "char \<Rightarrow> char" where
  "lower_char c =
     (case map_of (zip ''ABCDEFGHIJKLMNOPQRSTUVWXYZ'' ''abcdefghijklmnopqrstuvwxyz'') c of
        Some l \<Rightarrow> l
      | None \<Rightarrow> c)"

definition lower :: "string \<Rightarrow> string" where
  "lower s = map lower_char s"

text \<open>\<^verbatim>\<open>hasattr(cursor, 'lowercase') and cursor.lowercase\<close>\<close>

definition lowercase_mode :: "cursor option \<Rightarrow> bool" where
  "lowercase_mode cur =
     (case cur of
        None \<Rightarrow> False
      | Some c \<Rightarrow> (case lowercase c of None \<Rightarrow> False | Some b \<Rightarrow> b))"

definition no_attribute :: "string \<Rightarrow> exn" where
  "no_attribute name = AttributeError (''Row has no attribute '' @ [CHR 0x27] @ name @ [CHR 0x27])"

text \<open>Iterating over \<^verbatim>\<open>None\<close> raises this.\<close>

definition not_iterable :: exn where
  "not_iterable =
     TypeError ([CHR 0x27] @ ''NoneType'' @ [CHR 0x27] @ '' object is not iterable'')"

text \<open>The \<^verbatim>\<open>for col_name in column_map\<close> loop: the first key whose lower case is the name's.\<close>

fun scan :: "string \<Rightarrow> string list \<Rightarrow> string option" where
  "scan name_lower [] = None"
| "scan name_lower (col # cols) =
     (if lower col = name_lower then Some col else scan name_lower cols)"

definition Row_getattr :: "row \<Rightarrow> string \<Rightarrow> exn + val" where
  "Row_getattr self name =
     (case (case column_map self of None \<Rightarrow> None | Some cm \<Rightarrow> map_of cm name) of
        Some pos \<Rightarrow> getitem (items (values_slot self)) pos
      | None \<Rightarrow>
          if lowercase_mode (cursor_ref self) then
            (case column_map self of
               None \<Rightarrow> Inl not_iterable
             | Some cm \<Rightarrow>
                 (case scan (lower name) (map fst cm) of
                    Some col \<Rightarrow>
                      (case map_of cm col of
                         Some pos \<Rightarrow> getitem (items (values_slot self)) pos
                       | None \<Rightarrow> Inl (no_attribute name))
                  | None \<Rightarrow> Inl (no_attribute name)))
          else Inl (no_attribute name))"

text \<open>
  \<^verbatim>\<open>Row.__eq__\<close>.  The other operand is a list, a row, or something else (a tuple, a
  single value).  \<^verbatim>\<open>super().__eq__(other)\<close> is \<^verbatim>\<open>object.__eq__\<close>, which answers
  \<^verbatim>\<open>NotImplemented\<close> for an operand that is not the row itself; the operator \<^verbatim>\<open>==\<close> then
  compares by identity.
\<close>

datatype pyobj = OList "val list" | ORow row | OTuple "val list" | OVal val

datatype eq_result = Eq bool | NotImplemented

definition Row_eq :: "row \<Rightarrow> pyobj \<Rightarrow> eq_result" where
  "Row_eq self other =
     (case other of
        OList ys \<Rightarrow> Eq (items (values_slot self) = ys)
      | ORow r \<Rightarrow> Eq (values_slot self = values_slot r)
      | OTuple ys \<Rightarrow> NotImplemented
      | OVal v \<Rightarrow> NotImplemented)"

text \<open>
  The operator \<^verbatim>\<open>row == other\<close>.  When \<^verbatim>\<open>__eq__\<close> answers \<^verbatim>\<open>NotImplemented\<close>, and the
  reflected method of the tuple or value does too, Python compares identities; the other
  operand is then not a row, so it is not this row.
\<close>

definition equals :: "row \<Rightarrow> pyobj \<Rightarrow> bool" where
  "equals self other = (case Row_eq self other of Eq b \<Rightarrow> b | NotImplemented \<Rightarrow> False)"

text \<open>
  \<^verbatim>\<open>Row._apply_output_converters\<close>.  \<^verbatim>\<open>ConstantsDDBC.SQL_WVARCHAR.value\<close> is defined in
  \<^verbatim>\<open>whiskers.constants\<close>; it is the parameter \<open>wvarchar\<close> here.
\<close>

definition encode_utf16le :: "string \<Rightarrow> string" where
  "encode_utf16le s = concat (map (\<lambda>c. [c, CHR 0x00]) s)"

fun is_str_or_bytes :: "val \<Rightarrow> bool" where
  "is_str_or_bytes (VStr s) = True"
| "is_str_or_bytes (VBytes b) = True"
| "is_str_or_bytes v = False"

definition find_converter :: "int \<Rightarrow> cursor \<Rightarrow> val \<Rightarrow> int \<Rightarrow> converter option" where
  "find_converter wvarchar cur v sql_type =
     (case get_output_converter cur sql_type of
        Some f \<Rightarrow> Some f
      | None \<Rightarrow> if is_str_or_bytes v then get_output_converter cur wvarchar else None)"

fun converter_arg :: "val \<Rightarrow> val" where
  "converter_arg (VStr s) = VBytes (encode_utf16le s)"
| "converter_arg v = v"

text \<open>
  The body of the loop for one position: the value the slot holds afterwards, and the
  arguments with which a converter was called (none or one).
\<close>

definition convert_value :: "int \<Rightarrow> cursor \<Rightarrow> val \<Rightarrow> desc option \<Rightarrow> val \<times> val list" where
  "convert_value wvarchar cur v d =
     (case d of
        None \<Rightarrow> (v, [])
      | Some dsc \<Rightarrow>
          if v = VNone then (v, [])
          else
            (case find_converter wvarchar cur v (type_code dsc) of
               None \<Rightarrow> (v, [])
             | Some f \<Rightarrow>
                 (case f (converter_arg v) of
                    Inr v' \<Rightarrow> (v', [converter_arg v])
                  | Inl e \<Rightarrow> (v, [converter_arg v]))))"

text \<open>
  \<^verbatim>\<open>for i, (value, desc) in enumerate(zip(values, description))\<close>: the list is read at
  position \<open>i\<close> when the loop gets there, and the loop ends with the shorter of the two.
\<close>

fun conv_loop ::
  "int \<Rightarrow> cursor \<Rightarrow> desc option list \<Rightarrow> nat \<Rightarrow> val list \<Rightarrow> val list \<times> (nat \<times> val) list" where
  "conv_loop wvarchar cur [] i vals = (vals, [])"
| "conv_loop wvarchar cur (d # ds) i vals =
     (if i < length vals then
        (case convert_value wvarchar cur (vals ! i) d of
           (v', args) \<Rightarrow>
             (case conv_loop wvarchar cur ds (Suc i) (vals[i := v']) of
                (vals', calls) \<Rightarrow> (vals', map (Pair i) args @ calls)))
      else (vals, []))"

definition apply_output_converters ::
  "int \<Rightarrow> row \<Rightarrow> cursor \<Rightarrow> desc option list option \<Rightarrow> row \<times> (nat \<times> val) list" where
  "apply_output_converters wvarchar self cur description =
     (case description of
        None \<Rightarrow> (self, [])
      | Some [] \<Rightarrow> (self, [])
      | Some (d # ds) \<Rightarrow>
          (case conv_loop wvarchar cur (d # ds) 0 (items (values_slot self)) of
             (vals', calls) \<Rightarrow> (self\<lparr>values_slot := PyList vals'\<rparr>, calls)))"

section \<open>The loop of \<^verbatim>\<open>get\<close>\<close>

lemma get_loop_Nil: "get_loop timeout now [] = (Inr None, [], [])"
  by (simp add: get_loop.simps)

lemma get_loop_snoc:
  "get_loop timeout now (xs @ [(c, t)]) =
     (if now - t < timeout then
        (if probe_raises c then after [Probe c, Close c] (get_loop timeout now xs)
         else (Inr (Some c), xs, [Probe c]))
      else after [Close c] (get_loop timeout now xs))"
  by (subst get_loop.simps) (simp add: probe_def close_quietly_def close_def)


lemma after_simps [simp]: "after ev (x, p, tr) = (x, p, ev @ tr)"
  by (simp add: after_def)

text \<open>The loop only takes entries away, and no exception leaves it.\<close>

lemma get_loop_shorter: "length (fst (snd (get_loop timeout now pool))) \<le> length pool"
proof (induction pool rule: rev_induct)
  case Nil
  show ?case by (simp add: get_loop_Nil)
next
  case (snoc e xs)
  obtain c t where e: "e = (c, t)" by (cases e)
  obtain r rest tr where g: "get_loop timeout now xs = (r, rest, tr)" by (cases "get_loop timeout now xs")
  with snoc show ?case by (simp add: e get_loop_snoc)
qed

lemma get_loop_no_raise: "fst (get_loop timeout now pool) \<noteq> Inl e"
proof (induction pool rule: rev_induct)
  case Nil
  show ?case by (simp add: get_loop_Nil)
next
  case (snoc x xs)
  obtain c t where x: "x = (c, t)" by (cases x)
  obtain r rest tr where g: "get_loop timeout now xs = (r, rest, tr)" by (cases "get_loop timeout now xs")
  with snoc show ?case by (simp add: x get_loop_snoc)
qed

section \<open>The size of the per-key lists\<close>

lemma entries_update: "entries (s\<lparr>pools := AList.update k p (pools s)\<rparr>) k' = (if k' = k then p else entries s k')"
  by (simp add: entries_def update_conv')

lemma entries_get:
  "length (entries (fst (snd (get s k now))) k') \<le> length (entries s k')"
proof (cases "enabled s")
  case False
  then show ?thesis by (simp add: get_def)
next
  case True
  show ?thesis
  proof (cases "map_of (pools s) k")
    case None
    with True show ?thesis by (simp add: get_def)
  next
    case (Some pool)
    obtain r rest tr where g: "get_loop (idle_timeout s) now pool = (r, rest, tr)"
      by (cases "get_loop (idle_timeout s) now pool")
    have "length rest \<le> length pool" using get_loop_shorter [of "idle_timeout s" now pool] g by simp
    with True Some g show ?thesis by (simp add: get_def entries_update) (simp add: entries_def)
  qed
qed

lemma max_size_get: "max_size (fst (snd (get s k now))) = max_size s" "enabled (fst (snd (get s k now))) = enabled s"
  by (auto simp: get_def split: option.splits prod.splits)

lemma put_props: "max_size (fst (snd (put s k c now))) = max_size s" "enabled (fst (snd (put s k c now))) = enabled s"
  by (auto simp: put_def Let_def close_def split: option.splits prod.splits)

lemma put_disabled:
  "\<not> enabled s \<Longrightarrow>
     put s k c now = (if close_raises c then Inl DriverError else Inr (), s, [Close c])"
  by (simp add: put_def close_def)

lemma put_enabled:
  "enabled s \<Longrightarrow>
     put s k c now =
       (if int (length (entries s k)) < max_size s
        then (Inr (), s\<lparr>pools := AList.update k (entries s k @ [(c, now)]) (pools s)\<rparr>,
              [Acquire, Release])
        else (if close_raises c then Inl DriverError else Inr (),
              s\<lparr>pools := AList.update k (entries s k) (pools s)\<rparr>,
              [Acquire, Close c, Release]))"
  by (simp add: put_def close_def entries_def Let_def)

lemma entries_put:
  assumes "int (length (entries s k')) \<le> max_size s"
  shows "int (length (entries (fst (snd (put s k c now))) k')) \<le> max_size s"
proof (cases "enabled s")
  case False
  with assms show ?thesis by (simp add: put_disabled)
next
  case True
  with assms show ?thesis by (auto simp add: put_enabled entries_update)
qed

lemma entries_disable: "entries (fst (snd (disable s))) k = []"
  by (simp add: disable_def entries_def)

lemma step_bounded:
  assumes "\<forall>k. int (length (entries s k)) \<le> max_size s" and "\<not> is_enable x"
  shows "(\<forall>k. int (length (entries (fst (snd (step s x))) k)) \<le> max_size s)
         \<and> max_size (fst (snd (step s x))) = max_size s"
proof (cases x)
  case (Enable m t)
  with assms show ?thesis by simp
next
  case Disable
  have "0 \<le> max_size s" using assms(1) [rule_format, of "[]"] by linarith
  with Disable show ?thesis
    by (simp add: split_beta entries_disable) (simp add: disable_def)
next
  case (Get k now)
  have "int (length (entries (fst (snd (get s k now))) k')) \<le> max_size s" for k'
    using entries_get [of s k now k'] assms(1) [rule_format, of k'] by linarith
  with Get show ?thesis by (simp add: split_beta max_size_get)
next
  case (Put k c now)
  with assms show ?thesis by (simp add: split_beta put_props entries_put)
qed

lemma enable_within:
  assumes "0 \<le> m" and "list_all (\<lambda>(k, es). int (length es) \<le> m) (pools s)"
  shows "int (length (entries (fst (snd (enable s m t))) k)) \<le> max_size (fst (snd (enable s m t)))"
proof (cases "map_of (pools s) k")
  case None
  with assms(1) show ?thesis by (simp add: enable_def entries_def)
next
  case (Some es)
  then have "(k, es) \<in> set (pools s)" by (rule map_of_SomeD)
  with assms(2) have "int (length es) \<le> m" by (auto simp: list_all_iff)
  with Some show ?thesis by (simp add: enable_def entries_def)
qed

lemma step_within:
  assumes "\<forall>k. int (length (entries s k)) \<le> max_size s" and "keeps_limit s x"
  shows "\<forall>k. int (length (entries (fst (snd (step s x))) k)) \<le> max_size (fst (snd (step s x)))"
proof (cases "is_enable x")
  case False
  from step_bounded [OF assms(1) False] show ?thesis by simp
next
  case True
  then obtain m t where x: "x = Enable m t" by (cases x) simp_all
  with assms(2) have "0 \<le> m" and "list_all (\<lambda>(k, es). int (length es) \<le> m) (pools s)"
    by simp_all
  from enable_within [OF this] show ?thesis by (simp add: x split_beta)
qed

lemma run_within:
  assumes "\<forall>k. int (length (entries s k)) \<le> max_size s" and "no_shrink s ops"
  shows "\<forall>k. int (length (entries (fst (run s ops)) k)) \<le> max_size (fst (run s ops))"
  using assms
proof (induction ops arbitrary: s)
  case Nil
  then show ?case by simp
next
  case (Cons x xs)
  obtain r s' tr where st: "step s x = (r, s', tr)" by (cases "step s x")
  have kx: "keeps_limit s x" and nxs: "no_shrink s' xs" using Cons.prems(2) st by simp_all
  have "\<forall>k. int (length (entries s' k)) \<le> max_size s'"
    using step_within [OF Cons.prems(1) kx] st by simp
  from Cons.IH [OF this nxs] st show ?case by (simp add: split_beta)
qed

lemma put_full:
  assumes "max_size s \<le> int (length (entries s k))"
  shows "filter is_io (snd (snd (put s k c now))) = [Close c]
         \<and> (\<forall>k'. entries (fst (snd (put s k c now))) k' = entries s k')"
proof (cases "enabled s")
  case False
  then show ?thesis by (simp add: put_disabled)
next
  case True
  with assms show ?thesis by (simp add: put_enabled entries_update)
qed

text \<open>
  Claim C1.  As stated (no key ever holds more than the configured \<open>maxSize\<close>, for every
  sequence of \<^verbatim>\<open>enable\<close>, \<^verbatim>\<open>get\<close> and \<^verbatim>\<open>put\<close>) it fails: \<^verbatim>\<open>enable\<close> only stores the new
  limit and trims nothing, so a second \<^verbatim>\<open>enable\<close> with a smaller limit leaves the longer
  list in place.
\<close>

theorem C1_counterexample:
  "max_size (fst (run init
      [Enable 2 600, Put ''db'' (Conn 7 False False) 0, Put ''db'' (Conn 8 False False) 1,
       Enable 1 600])) = 1
   \<and> int (length (entries (fst (run init
      [Enable 2 600, Put ''db'' (Conn 7 False False) 0, Put ''db'' (Conn 8 False False) 1,
       Enable 1 600])) ''db'')) = 2"
  by (simp add: init_def enable_def put_def entries_def close_def)

text \<open>
  Claim C1, amended.  Take a pool in which no key holds more entries than the limit in
  force (a fresh pool is one), and any sequence of \<^verbatim>\<open>enable\<close>, \<^verbatim>\<open>disable\<close>, \<^verbatim>\<open>get\<close> and
  \<^verbatim>\<open>put\<close> calls in which no \<^verbatim>\<open>enable\<close> sets a limit that is negative or below the number
  of entries some key holds at that moment.  Afterwards no key holds more entries than
  the limit in force; and a \<^verbatim>\<open>put\<close> made then, while its key holds exactly that many
  entries, calls \<^verbatim>\<open>close\<close> on the incoming connection, makes no other driver call, and
  leaves the entries of every key as they were.
\<close>

theorem C1_pool_bounded_by_max_size:
  assumes "\<forall>k. int (length (entries s k)) \<le> max_size s" and "no_shrink s ops"
  shows "let s' = fst (run s ops) in
           (\<forall>k. int (length (entries s' k)) \<le> max_size s') \<and>
           (\<forall>k c now. int (length (entries s' k)) = max_size s' \<longrightarrow>
              filter is_io (snd (snd (put s' k c now))) = [Close c] \<and>
              (\<forall>k'. entries (fst (snd (put s' k c now))) k' = entries s' k'))"
proof -
  define s' where "s' = fst (run s ops)"
  have b: "\<forall>k. int (length (entries s' k)) \<le> max_size s'"
    using run_within [OF assms] by (simp add: s'_def)
  have "filter is_io (snd (snd (put s' k c now))) = [Close c] \<and>
        (\<forall>k'. entries (fst (snd (put s' k c now))) k' = entries s' k')"
    if "int (length (entries s' k)) = max_size s'" for k c now
    using put_full [of s' k c now] that by simp
  with b show ?thesis
    unfolding Let_def s'_def by blast
qed

theorem C1_witness:
  "(\<forall>k. int (length (entries init k)) \<le> max_size init)
   \<and> no_shrink init
       [Enable 1 600, Put ''db'' (Conn 7 False False) 0, Put ''db'' (Conn 8 False False) 1,
        Enable 2 600, Get ''db'' 2]
   \<and> (\<forall>k. int (length (entries (fst (run init
       [Enable 1 600, Put ''db'' (Conn 7 False False) 0, Put ''db'' (Conn 8 False False) 1,
        Enable 2 600, Get ''db'' 2])) k)) \<le> 2)"
proof -
  let ?ops = "[Enable 1 600, Put ''db'' (Conn 7 False False) 0, Put ''db'' (Conn 8 False False) 1,
        Enable 2 600, Get ''db'' 2]"
  have h1: "\<forall>k. int (length (entries init k)) \<le> max_size init"
    by (simp add: entries_def init_def)
  have h2: "no_shrink init ?ops"
    by (simp add: init_def enable_def put_def close_def)
  have m: "max_size (fst (run init ?ops)) = 2"
    using get_loop_snoc [of 600 2 "[]" "Conn 7 False False" 0]
    by (simp add: init_def enable_def put_def close_def get_def get_loop_Nil)
  from C1_pool_bounded_by_max_size [OF h1 h2] have
    "\<forall>k. int (length (entries (fst (run init ?ops)) k)) \<le> max_size (fst (run init ?ops))"
    by (simp only: Let_def) blast
  with h1 h2 show ?thesis unfolding m by blast
qed

section \<open>Which entry \<^verbatim>\<open>get\<close> hands out\<close>

lemma after_after: "after ev (after ev' r) = after (ev @ ev') r"
  by (cases r) simp

lemma get_loop_append:
  "get_loop timeout now (pre @ post) =
     (case get_loop timeout now post of
        (Inr (Some r), post', tr) \<Rightarrow> (Inr (Some r), pre @ post', tr)
      | (x, post', tr) \<Rightarrow> after tr (get_loop timeout now pre))"
proof (induction post rule: rev_induct)
  case Nil
  obtain r rest tr where "get_loop timeout now pre = (r, rest, tr)"
    by (cases "get_loop timeout now pre")
  then show ?case by (simp add: get_loop_Nil)
next
  case (snoc e ys)
  obtain c t where e: "e = (c, t)" by (cases e)
  obtain r rest tr where g: "get_loop timeout now ys = (r, rest, tr)"
    by (cases "get_loop timeout now ys")
  have "get_loop timeout now ((pre @ ys) @ [(c, t)]) =
     (case get_loop timeout now (ys @ [(c, t)]) of
        (Inr (Some r), post', tr) \<Rightarrow> (Inr (Some r), pre @ post', tr)
      | (x, post', tr) \<Rightarrow> after tr (get_loop timeout now pre))"
    unfolding get_loop_snoc [of timeout now ys] get_loop_snoc [of timeout now "pre @ ys"] snoc.IH g
    by (simp add: after_after split: sum.splits option.splits)
  then show ?case by (simp add: e)
qed

lemma get_loop_returns_fresh:
  "get_loop timeout now pool = (Inr (Some r), rest, tr) \<Longrightarrow>
     \<exists>t_r above. pool = rest @ (r, t_r) # above \<and> now - t_r < timeout \<and> \<not> probe_raises r"
proof (induction pool arbitrary: tr rule: rev_induct)
  case Nil
  then show ?case by (simp add: get_loop_Nil)
next
  case (snoc e xs)
  obtain c t where e: "e = (c, t)" by (cases e)
  obtain r' rest' tr' where g: "get_loop timeout now xs = (r', rest', tr')"
    by (cases "get_loop timeout now xs")
  show ?case
  proof (cases "now - t < timeout \<and> \<not> probe_raises c")
    case True
    with snoc.prems show ?thesis by (simp add: e get_loop_snoc)
  next
    case False
    with snoc.prems g have "get_loop timeout now xs = (Inr (Some r), rest, tr')"
      by (auto simp: e get_loop_snoc split: if_splits)
    from snoc.IH [OF this] obtain t_r above
      where "xs = rest @ (r, t_r) # above" "now - t_r < timeout" "\<not> probe_raises r" by blast
    then have "xs @ [e] = rest @ (r, t_r) # (above @ [e])" by simp
    with \<open>now - t_r < timeout\<close> \<open>\<not> probe_raises r\<close> show ?thesis by blast
  qed
qed

lemma get_enabled:
  "enabled s \<Longrightarrow> map_of (pools s) k = Some pool \<Longrightarrow>
     get s k now =
       (case get_loop (idle_timeout s) now pool of
          (r, rest, tr) \<Rightarrow>
            (r, s\<lparr>pools := AList.update k rest (pools s)\<rparr>, Acquire # tr @ [Release]))"
  by (simp add: get_def)

text \<open>
  Claim C2.  An entry stored at time \<open>t\<close> lies somewhere in its key's list, \<open>pre\<close> below
  it and \<open>post\<close> above it.  In a \<^verbatim>\<open>get\<close> at a time \<open>now\<close> with
  \<open>now - t \<ge> idle_timeout\<close>, the timeout being the one the pool holds at the time of the
  \<^verbatim>\<open>get\<close>: either the search stops above the entry, which then stays in the list; or
  the search reaches it, and then \<^verbatim>\<open>close\<close> is called on it, with no probe and whatever
  \<^verbatim>\<open>close\<close> does, and the search goes on with the entries below.  A connection that
  \<^verbatim>\<open>get\<close> returns is that of an entry younger than the timeout, so never this one.
\<close>

theorem C2_stale_entry_discarded:
  assumes en: "enabled s"
    and pool: "map_of (pools s) k = Some (pre @ (c, t) # post)"
    and stale: "idle_timeout s \<le> now - t"
  shows "get s k now =
     (case get_loop (idle_timeout s) now post of
        (Inr (Some r), post', tr) \<Rightarrow>
          (Inr (Some r), s\<lparr>pools := AList.update k (pre @ (c, t) # post') (pools s)\<rparr>,
           Acquire # tr @ [Release])
      | (x, post', tr) \<Rightarrow>
          (case get_loop (idle_timeout s) now pre of
             (r, pre', tr') \<Rightarrow>
               (r, s\<lparr>pools := AList.update k pre' (pools s)\<rparr>,
                Acquire # tr @ Close c # tr' @ [Release])))
     \<and> (\<forall>r s' tr. get s k now = (Inr (Some r), s', tr) \<longrightarrow>
          (\<exists>t_r above. pre @ (c, t) # post = entries s' k @ (r, t_r) # above
             \<and> now - t_r < idle_timeout s))"
proof -
  let ?T = "idle_timeout s"
  have one: "get_loop ?T now (pre @ [(c, t)]) = after [Close c] (get_loop ?T now pre)"
    using stale by (simp add: get_loop_snoc)
  have split: "get_loop ?T now (pre @ (c, t) # post) =
     (case get_loop ?T now post of
        (Inr (Some r), post', tr) \<Rightarrow> (Inr (Some r), pre @ (c, t) # post', tr)
      | (x, post', tr) \<Rightarrow> after (tr @ [Close c]) (get_loop ?T now pre))"
  proof -
    obtain x post' tr where gp: "get_loop ?T now post = (x, post', tr)"
      by (cases "get_loop ?T now post")
    show ?thesis
      unfolding get_loop_append [of ?T now "pre @ [(c, t)]" post, simplified] gp one
      by (simp add: after_after split: sum.splits option.splits)
  qed
  obtain x post' tr where gp: "get_loop ?T now post = (x, post', tr)"
    by (cases "get_loop ?T now post")
  obtain r pre' tr' where gq: "get_loop ?T now pre = (r, pre', tr')"
    by (cases "get_loop ?T now pre")
  have first: "get s k now =
     (case get_loop (idle_timeout s) now post of
        (Inr (Some r), post', tr) \<Rightarrow>
          (Inr (Some r), s\<lparr>pools := AList.update k (pre @ (c, t) # post') (pools s)\<rparr>,
           Acquire # tr @ [Release])
      | (x, post', tr) \<Rightarrow>
          (case get_loop (idle_timeout s) now pre of
             (r, pre', tr') \<Rightarrow>
               (r, s\<lparr>pools := AList.update k pre' (pools s)\<rparr>,
                Acquire # tr @ Close c # tr' @ [Release])))"
    unfolding get_enabled [OF en pool] split gp gq
    by (simp split: sum.splits option.splits)
  have second: "\<exists>t_r above. pre @ (c, t) # post = entries s' k @ (r, t_r) # above
             \<and> now - t_r < idle_timeout s"
    if g: "get s k now = (Inr (Some r), s', tr)" for r s' tr
  proof -
    obtain rest tr0 where gl: "get_loop ?T now (pre @ (c, t) # post) = (Inr (Some r), rest, tr0)"
      and s': "s' = s\<lparr>pools := AList.update k rest (pools s)\<rparr>"
      using g unfolding get_enabled [OF en pool]
      by (cases "get_loop ?T now (pre @ (c, t) # post)") auto
    have "entries s' k = rest" by (simp add: s' entries_update)
    with get_loop_returns_fresh [OF gl] show ?thesis by auto
  qed
  from first second show ?thesis by blast
qed

theorem C2_witness:
  "enabled (fst (run init
      [Enable 5 600, Put ''db'' (Conn 7 False True) 0, Put ''db'' (Conn 8 False False) 100,
       Enable 5 50]))
   \<and> get (fst (run init
      [Enable 5 600, Put ''db'' (Conn 7 False True) 0, Put ''db'' (Conn 8 False False) 100,
       Enable 5 50])) ''db'' 200
     = (Inr None,
        \<lparr>enabled = True, max_size = 5, idle_timeout = 50, pools = [(''db'', [])]\<rparr>,
        [Acquire, Close (Conn 8 False False), Close (Conn 7 False True), Release])"
proof -
  let ?s = "fst (run init
      [Enable 5 600, Put ''db'' (Conn 7 False True) 0, Put ''db'' (Conn 8 False False) 100,
       Enable 5 50])"
  have s: "?s = \<lparr>enabled = True, max_size = 5, idle_timeout = 50,
      pools = [(''db'', [(Conn 7 False True, 0), (Conn 8 False False, 100)])]\<rparr>"
    by (simp add: init_def enable_def put_def close_def)
  have h1: "enabled ?s" unfolding s by simp
  have h2: "map_of (pools ?s) ''db'' = Some ([] @ (Conn 7 False True, 0) # [(Conn 8 False False, 100)])"
    unfolding s by simp
  have h3: "idle_timeout ?s \<le> 200 - 0" unfolding s by simp
  have g: "get_loop 50 200 [(Conn 8 False False, 100)] = (Inr None, [], [Close (Conn 8 False False)])"
    using get_loop_snoc [of 50 200 "[]" "Conn 8 False False" 100] by (simp add: get_loop_Nil)
  from C2_stale_entry_discarded [OF h1 h2 h3] h1 show ?thesis
    unfolding s by (simp add: g get_loop_Nil)
qed

text \<open>
  Claim C3.  After \<^verbatim>\<open>put(key, a)\<close> and then \<^verbatim>\<open>put(key, b)\<close>, both stored, \<open>b\<close> lies on top
  of \<open>a\<close>.  The next \<^verbatim>\<open>get(key)\<close> deals with \<open>b\<close> first: when \<open>b\<close> is younger than the
  timeout and its probe passes, \<open>b\<close> is returned and the pool is as it was after the
  first \<^verbatim>\<open>put\<close>; otherwise \<open>b\<close> is closed, and the call goes on exactly as a \<^verbatim>\<open>get\<close>
  would on the pool that holds \<open>a\<close> but not \<open>b\<close>.
\<close>

theorem C3_lifo_reuse:
  assumes en: "enabled s" and room: "int (length (entries s k)) + 1 < max_size s"
  shows "let s1 = fst (snd (put s k a t1)); s2 = fst (snd (put s1 k b t2)) in
     entries s2 k = entries s k @ [(a, t1), (b, t2)] \<and>
     get s2 k now =
       (if now - t2 < idle_timeout s \<and> \<not> probe_raises b
        then (Inr (Some b), s1, [Acquire, Probe b, Release])
        else (case get s1 k now of
                (r, s', tr) \<Rightarrow>
                  (r, s', Acquire # (if now - t2 < idle_timeout s then [Probe b, Close b]
                                     else [Close b]) @ tl tr)))"
proof -
  let ?p = "entries s k"
  define s1 where "s1 = s\<lparr>pools := AList.update k (?p @ [(a, t1)]) (pools s)\<rparr>"
  define s2 where "s2 = s\<lparr>pools := AList.update k (?p @ [(a, t1), (b, t2)]) (pools s)\<rparr>"
  have p1: "fst (snd (put s k a t1)) = s1"
    using en room by (simp add: put_enabled s1_def)
  have e1: "entries s1 k = ?p @ [(a, t1)]" and en1: "enabled s1" and m1: "max_size s1 = max_size s"
    by (simp_all add: s1_def entries_update en)
  have p2: "fst (snd (put s1 k b t2)) = s2"
    using en1 room by (simp add: put_enabled e1 m1) (simp add: s1_def s2_def)
  have e2: "entries s2 k = ?p @ [(a, t1), (b, t2)]" and en2: "enabled s2"
    by (simp_all add: s2_def entries_update en)
  have mp1: "map_of (pools s1) k = Some (?p @ [(a, t1)])"
    by (simp add: s1_def update_conv')
  have mp2: "map_of (pools s2) k = Some ((?p @ [(a, t1)]) @ [(b, t2)])"
    by (simp add: s2_def update_conv')
  have upd: "s2\<lparr>pools := AList.update k rest (pools s2)\<rparr> = s1\<lparr>pools := AList.update k rest (pools s1)\<rparr>"
    for rest by (simp add: s1_def s2_def)
  have same1: "s1\<lparr>pools := AList.update k (?p @ [(a, t1)]) (pools s1)\<rparr> = s1"
    by (simp add: s1_def)
  have undo_b: "s2\<lparr>pools := AList.update k (?p @ [(a, t1)]) (pools s2)\<rparr> = s1"
    by (simp add: s1_def s2_def)
  obtain r rest tr where gl: "get_loop (idle_timeout s) now (?p @ [(a, t1)]) = (r, rest, tr)"
    by (cases "get_loop (idle_timeout s) now (?p @ [(a, t1)])")
  have T1: "idle_timeout s1 = idle_timeout s" and T2: "idle_timeout s2 = idle_timeout s"
    by (simp_all add: s1_def s2_def)
  have "get s2 k now =
       (if now - t2 < idle_timeout s \<and> \<not> probe_raises b
        then (Inr (Some b), s1, [Acquire, Probe b, Release])
        else (case get s1 k now of
                (r, s', tr) \<Rightarrow>
                  (r, s', Acquire # (if now - t2 < idle_timeout s then [Probe b, Close b]
                                     else [Close b]) @ tl tr)))"
    unfolding get_enabled [OF en2 mp2] get_enabled [OF en1 mp1] T1 T2
      get_loop_snoc [of "idle_timeout s" now "?p @ [(a, t1)]" b t2] gl
    by (simp add: upd undo_b same1)
  with e2 show ?thesis by (simp add: Let_def p1 p2)
qed

theorem C3_witness:
  "enabled (fst (snd (enable init 5 600)))
   \<and> int (length (entries (fst (snd (enable init 5 600))) ''db'')) + 1
       < max_size (fst (snd (enable init 5 600)))
   \<and> get (fst (snd (put (fst (snd (put (fst (snd (enable init 5 600))) ''db''
          (Conn 7 False False) 0))) ''db'' (Conn 8 False False) 1))) ''db'' 2
     = (Inr (Some (Conn 8 False False)),
        \<lparr>enabled = True, max_size = 5, idle_timeout = 600,
          pools = [(''db'', [(Conn 7 False False, 0)])]\<rparr>,
        [Acquire, Probe (Conn 8 False False), Release])"
proof -
  let ?s = "fst (snd (enable init 5 600))"
  have h1: "enabled ?s" by (simp add: enable_def)
  have h2: "int (length (entries ?s ''db'')) + 1 < max_size ?s"
    by (simp add: enable_def init_def entries_def)
  have s1: "fst (snd (put ?s ''db'' (Conn 7 False False) 0)) =
      \<lparr>enabled = True, max_size = 5, idle_timeout = 600,
        pools = [(''db'', [(Conn 7 False False, 0)])]\<rparr>"
    by (simp add: enable_def init_def put_def)
  from C3_lifo_reuse [OF h1 h2, of "Conn 7 False False" 0 "Conn 8 False False" 1 2] h1 h2
  show ?thesis
    by (simp add: Let_def s1) (simp add: enable_def)
qed

section \<open>Exceptions of \<^verbatim>\<open>close\<close>\<close>

text \<open>In \<^verbatim>\<open>get\<close> every driver call stands in a \<^verbatim>\<open>try\<close>: no exception leaves \<^verbatim>\<open>get\<close>.\<close>

lemma get_never_raises: "fst (get s k now) \<noteq> Inl e"
proof (cases "enabled s")
  case False
  then show ?thesis by (simp add: get_def)
next
  case True
  show ?thesis
  proof (cases "map_of (pools s) k")
    case None
    with True show ?thesis by (simp add: get_def)
  next
    case (Some pool)
    obtain r rest tr where g: "get_loop (idle_timeout s) now pool = (r, rest, tr)"
      by (cases "get_loop (idle_timeout s) now pool")
    with get_loop_no_raise [of "idle_timeout s" now pool e] have "r \<noteq> Inl e" by simp
    with g show ?thesis by (simp add: get_enabled [OF True Some])
  qed
qed

text \<open>
  Claim C4 says that an exception of \<^verbatim>\<open>close()\<close> never reaches the caller of \<^verbatim>\<open>get\<close> or
  \<^verbatim>\<open>put\<close>.  For \<^verbatim>\<open>get\<close> that is the lemma above.  In \<^verbatim>\<open>put\<close> neither call of
  \<^verbatim>\<open>conn.close()\<close> stands in a \<^verbatim>\<open>try\<close>: with a connection whose \<^verbatim>\<open>close\<close> raises, \<^verbatim>\<open>put\<close>
  raises both when pooling is off and when the key's list is full.
\<close>

theorem C4_put_propagates_close_error:
  "put init ''db'' (Conn 7 False True) 0 = (Inl DriverError, init, [Close (Conn 7 False True)])
   \<and> put (fst (snd (enable init 0 600))) ''db'' (Conn 7 False True) 0
       = (Inl DriverError,
          \<lparr>enabled = True, max_size = 0, idle_timeout = 600, pools = [(''db'', [])]\<rparr>,
          [Acquire, Close (Conn 7 False True), Release])"
  by (simp add: put_def close_def init_def enable_def)

section \<open>\<^verbatim>\<open>disable\<close>\<close>

lemma close_quietly_eq: "close_quietly c = [Close c]"
  by (simp add: close_quietly_def close_def)

lemma disable_trace:
  "snd (snd (disable s)) = Acquire # map Close (pooled s) @ [Release]"
proof -
  have inner: "concat (map (\<lambda>(c, _). close_quietly c) conns) = map Close (map fst conns)" for conns :: "entry list"
    by (induction conns) (auto simp: close_quietly_eq)
  have "concat (map (\<lambda>(conn_str, conns). concat (map (\<lambda>(c, _). close_quietly c) conns)) al)
        = map Close (concat (map (\<lambda>(conn_str, conns). map fst conns) al))" for al :: "(string \<times> entry list) list"
    by (induction al) (auto simp: inner)
  then show ?thesis by (simp add: disable_def pooled_def)
qed

lemma step_disabled:
  assumes "\<not> enabled s" and "pools s = []" and "\<not> is_enable x"
  shows "step s x = (fst (disabled_reply x), s, snd (disabled_reply x))"
proof (cases x)
  case (Enable m t)
  with assms show ?thesis by simp
next
  case Disable
  have "s\<lparr>enabled := False, pools := []\<rparr> = s" using assms by (cases s) simp
  with Disable assms show ?thesis by (simp add: disable_def)
next
  case (Get k now)
  with assms show ?thesis by (simp add: get_def)
next
  case (Put k c now)
  with assms show ?thesis by (simp add: put_disabled)
qed

lemma run_disabled:
  assumes "\<not> enabled s" and "pools s = []" and "\<not> list_ex is_enable ops"
  shows "run s ops = (s, map disabled_reply ops)"
  using assms(3)
proof (induction ops)
  case Nil
  show ?case by simp
next
  case (Cons x xs)
  then have "\<not> is_enable x" and "run s xs = (s, map disabled_reply xs)" by simp_all
  with step_disabled [OF assms(1,2), of x] show ?case by simp
qed

text \<open>
  Claim C5.  \<^verbatim>\<open>disable\<close> raises nothing, leaves pooling off and the dictionary empty, and
  between taking and releasing the lock calls \<^verbatim>\<open>close\<close> once for every pooled entry of
  every key, and nothing else: a connection is closed as often as it was pooled, once
  when it was pooled once.  In every sequence of \<^verbatim>\<open>get\<close>, \<^verbatim>\<open>put\<close> and \<^verbatim>\<open>disable\<close> calls
  that follows, up to the next \<^verbatim>\<open>enable\<close>, each \<^verbatim>\<open>get\<close> returns \<^verbatim>\<open>None\<close> without a driver
  call, each \<^verbatim>\<open>put\<close> calls \<^verbatim>\<open>close\<close> on its connection, and nothing is stored.
\<close>

theorem C5_disable_closes_all:
  assumes "\<not> list_ex is_enable ops"
  shows "case disable s of
           (r, s', tr) \<Rightarrow>
             r = Inr () \<and> \<not> enabled s' \<and> pools s' = [] \<and>
             tr = Acquire # map Close (pooled s) @ [Release] \<and>
             (\<forall>c. count_list tr (Close c) = count_list (pooled s) c) \<and>
             run s' ops = (s', map disabled_reply ops)"
proof -
  obtain r s' tr where d: "disable s = (r, s', tr)" by (cases "disable s")
  have r: "r = Inr ()" and e: "\<not> enabled s'" and p: "pools s' = []"
    using d by (auto simp: disable_def)
  have tr: "tr = Acquire # map Close (pooled s) @ [Release]"
    using disable_trace [of s] d by simp
  have cnt: "count_list (map Close xs) (Close c) = count_list xs c" for xs c
    by (induction xs) auto
  have "count_list tr (Close c) = count_list (pooled s) c" for c
    by (simp add: tr cnt)
  with r e p tr run_disabled [OF e p assms] d show ?thesis by simp
qed

theorem C5_witness:
  "\<not> list_ex is_enable [Get ''db'' 5, Put ''db'' (Conn 9 False False) 6]
   \<and> disable \<lparr>enabled = True, max_size = 5, idle_timeout = 600,
        pools = [(''a'', [(Conn 7 False True, 0), (Conn 8 False False, 1)]), (''b'', [(Conn 3 True False, 2)])]\<rparr>
     = (Inr (), \<lparr>enabled = False, max_size = 5, idle_timeout = 600, pools = []\<rparr>,
        [Acquire, Close (Conn 7 False True), Close (Conn 8 False False), Close (Conn 3 True False), Release])
   \<and> run \<lparr>enabled = False, max_size = 5, idle_timeout = 600, pools = []\<rparr>
         [Get ''db'' 5, Put ''db'' (Conn 9 False False) 6]
     = (\<lparr>enabled = False, max_size = 5, idle_timeout = 600, pools = []\<rparr>,
        [(Got (Inr None), []), (Done (Inr ()), [Close (Conn 9 False False)])])"
proof -
  let ?s = "\<lparr>enabled = True, max_size = 5, idle_timeout = 600,
        pools = [(''a'', [(Conn 7 False True, 0), (Conn 8 False False, 1)]), (''b'', [(Conn 3 True False, 2)])]\<rparr>"
  have h: "\<not> list_ex is_enable [Get ''db'' 5, Put ''db'' (Conn 9 False False) 6]" by simp
  obtain r s' tr where d: "disable ?s = (r, s', tr)" by (cases "disable ?s")
  have s': "s' = \<lparr>enabled = False, max_size = 5, idle_timeout = 600, pools = []\<rparr>"
    using d by (auto simp: disable_def)
  from C5_disable_closes_all [OF h, of ?s] h show ?thesis
    unfolding d by (simp add: s' pooled_def)
qed

section \<open>The lock\<close>

lemma get_loop_io: "filter is_io (snd (snd (get_loop timeout now pool))) = snd (snd (get_loop timeout now pool))"
proof (induction pool rule: rev_induct)
  case Nil
  show ?case by (simp add: get_loop_Nil)
next
  case (snoc e xs)
  obtain c t where e: "e = (c, t)" by (cases e)
  obtain r rest tr where g: "get_loop timeout now xs = (r, rest, tr)"
    by (cases "get_loop timeout now xs")
  with snoc show ?case by (simp add: e get_loop_snoc)
qed

text \<open>
  Claim C10 says that the lock is not held while a probe or a \<^verbatim>\<open>close\<close> runs.  The whole
  loop of \<^verbatim>\<open>get\<close> stands inside \<^verbatim>\<open>with self._lock:\<close>; a \<^verbatim>\<open>get\<close> on a pool with one
  young entry probes it with the lock held.
\<close>

theorem C10_counterexample:
  "\<not> io_outside_lock False
       (snd (snd (get \<lparr>enabled = True, max_size = 5, idle_timeout = 600,
                        pools = [(''db'', [(Conn 7 False False, 0)])]\<rparr> ''db'' 1)))"
  using get_loop_snoc [of 600 1 "[]" "Conn 7 False False" 0]
  by (simp add: get_def get_loop_Nil)

text \<open>
  Claim C10, amended.  A \<^verbatim>\<open>get\<close> with pooling on takes the lock once, makes all its
  probes and \<^verbatim>\<open>close\<close> calls while it holds the lock, and releases the lock last; with
  pooling off it touches neither lock nor driver.  A \<^verbatim>\<open>put\<close> with pooling off closes the
  connection without the lock; with pooling on it appends under the lock, or, the list
  being full, closes the connection while it holds the lock.
\<close>

theorem C10_lock_held_during_io:
  "snd (snd (get s k now)) =
     (if enabled s then Acquire # filter is_io (snd (snd (get s k now))) @ [Release] else [])
   \<and> snd (snd (put s k c now)) =
     (if \<not> enabled s then [Close c]
      else if int (length (entries s k)) < max_size s then [Acquire, Release]
      else [Acquire, Close c, Release])"
proof -
  have "snd (snd (get s k now)) =
     (if enabled s then Acquire # filter is_io (snd (snd (get s k now))) @ [Release] else [])"
  proof (cases "enabled s")
    case False
    then show ?thesis by (simp add: get_def)
  next
    case True
    show ?thesis
    proof (cases "map_of (pools s) k")
      case None
      with True show ?thesis by (simp add: get_def)
    next
      case (Some pool)
      obtain r rest tr where g: "get_loop (idle_timeout s) now pool = (r, rest, tr)"
        by (cases "get_loop (idle_timeout s) now pool")
      with get_loop_io [of "idle_timeout s" now pool] have "filter is_io tr = tr" by simp
      with g True show ?thesis by (simp add: get_enabled [OF True Some])
    qed
  qed
  moreover have "snd (snd (put s k c now)) =
     (if \<not> enabled s then [Close c]
      else if int (length (entries s k)) < max_size s then [Acquire, Release]
      else [Acquire, Close c, Release])"
    by (cases "enabled s") (simp_all add: put_disabled put_enabled)
  ultimately show ?thesis by simp
qed

section \<open>Access to a column by name\<close>

lemma scan_find:
  "scan n (map fst cm) = map_option fst (find (\<lambda>p. lower (fst p) = n) cm)"
  by (induction cm) auto

lemma scan_Some_mem: "scan n cols = Some col \<Longrightarrow> col \<in> set cols \<and> lower col = n"
  by (induction cols) (auto split: if_splits)

lemma find_pos:
  "distinct (map fst cm) \<Longrightarrow> find P cm = Some (col, pos) \<Longrightarrow> map_of cm col = Some pos"
  by (induction cm) (auto split: if_splits simp: rev_image_eqI)

lemma Row_getattr_present:
  assumes "column_map self = Some cm" and "distinct (map fst cm)"
  shows "Row_getattr self name =
     (case map_of cm name of
        Some pos \<Rightarrow> getitem (items (values_slot self)) pos
      | None \<Rightarrow>
          if lowercase_mode (cursor_ref self) then
            (case find (\<lambda>p. lower (fst p) = lower name) cm of
               Some (col, pos) \<Rightarrow> getitem (items (values_slot self)) pos
             | None \<Rightarrow> Inl (no_attribute name))
          else Inl (no_attribute name))"
proof (cases "map_of cm name")
  case (Some pos)
  with assms show ?thesis by (simp add: Row_getattr_def)
next
  case None
  show ?thesis
  proof (cases "find (\<lambda>p. lower (fst p) = lower name) cm")
    case no: None
    with None assms show ?thesis by (simp add: Row_getattr_def scan_find)
  next
    case (Some p)
    obtain col pos where p: "p = (col, pos)" by (cases p)
    from find_pos [OF assms(2)] Some p have "map_of cm col = Some pos" by simp
    with None Some p assms show ?thesis by (simp add: Row_getattr_def scan_find)
  qed
qed

text \<open>
  The example of the specification: the column map \<open>{Name: 0}\<close>, once with a cursor in
  lower-case mode and once with a cursor that is not.
\<close>

lemma Row_getattr_examples:
  "Row_getattr (Row_init (Some \<lparr>lowercase = Some True, get_output_converter = (\<lambda>t. None)\<rparr>) None
        (PyTuple [VInt 5]) (Some [(''Name'', 0)])) ''name'' = Inr (VInt 5)"
  "Row_getattr (Row_init (Some \<lparr>lowercase = Some False, get_output_converter = (\<lambda>t. None)\<rparr>) None
        (PyTuple [VInt 5]) (Some [(''Name'', 0)])) ''name'' = Inl (no_attribute ''name'')"
  by (simp_all add: Row_getattr_def Row_init_def lowercase_mode_def lower_def lower_char_def getitem_def)

text \<open>
  Claim C6 says that a name found by neither path fails with \<^verbatim>\<open>AttributeError\<close>, for
  every row.  For a row with a column map that is the lemma \<open>Row_getattr_present\<close>.  The
  column map is optional (\<^verbatim>\<open>column_map=None\<close> is the default of the constructor), and
  only the exact look-up tests \<^verbatim>\<open>column_map is not None\<close>: with a cursor in lower-case
  mode the loop runs over \<^verbatim>\<open>None\<close> and raises \<^verbatim>\<open>TypeError\<close>.
\<close>

theorem C6_getattr_type_error:
  "Row_getattr
     (Row_init (Some \<lparr>lowercase = Some True, get_output_converter = (\<lambda>t. None)\<rparr>) None
        (PyTuple [VInt 5]) None) ''name''
   = Inl not_iterable"
  by (simp add: Row_getattr_def Row_init_def lowercase_mode_def)

section \<open>Equality of rows\<close>

text \<open>
  Claim C7.  Against a list, \<^verbatim>\<open>__eq__\<close> answers whether the row's values and the list
  have the same length and equal elements at every position; against a row, whether the
  two value sequences are equal (a tuple and a list never are); against anything else
  it answers \<^verbatim>\<open>NotImplemented\<close>, which leaves the comparison to the default by identity:
  a row equals the list of its values and itself, and no tuple and no single value.
\<close>

theorem C7_row_equality:
  "Row_eq self (OList ys) =
      Eq (length (items (values_slot self)) = length ys \<and>
          (\<forall>i < length ys. items (values_slot self) ! i = ys ! i))
   \<and> Row_eq self (ORow r) = Eq (values_slot self = values_slot r)
   \<and> Row_eq self (OTuple ys) = NotImplemented
   \<and> Row_eq self (OVal v) = NotImplemented
   \<and> equals self (OList (items (values_slot self)))
   \<and> equals self (ORow self)
   \<and> \<not> equals self (OTuple ys)
   \<and> \<not> equals self (OVal v)"
  by (auto simp: Row_eq_def equals_def list_eq_iff_nth_eq)

theorem C7_witness:
  "Row_eq (Row_init None None (PyTuple [VInt 1, VStr ''x'', VNone])
       (Some [(''a'', 0), (''b'', 1), (''c'', 2)])) (OList [VInt 1, VStr ''x'', VNone]) = Eq True
   \<and> \<not> equals (Row_init None None (PyTuple [VInt 1, VStr ''x'', VNone])
       (Some [(''a'', 0), (''b'', 1), (''c'', 2)])) (OTuple [VInt 1, VStr ''x'', VNone])"
proof -
  have "\<forall>i < length [VInt 1, VStr ''x'', VNone].
      items (values_slot (Row_init None None (PyTuple [VInt 1, VStr ''x'', VNone])
       (Some [(''a'', 0), (''b'', 1), (''c'', 2)]))) ! i = [VInt 1, VStr ''x'', VNone] ! i"
    by (simp add: Row_init_def)
  with C7_row_equality [of "Row_init None None (PyTuple [VInt 1, VStr ''x'', VNone])
       (Some [(''a'', 0), (''b'', 1), (''c'', 2)])" "[VInt 1, VStr ''x'', VNone]"]
  show ?thesis by (simp add: Row_init_def)
qed

section \<open>Output converters\<close>

lemma conv_loop_length: "length (fst (conv_loop w cur ds i vals)) = length vals"
proof (induction ds arbitrary: i vals)
  case Nil
  show ?case by simp
next
  case (Cons d ds)
  show ?case
  proof (cases "i < length vals")
    case False
    then show ?thesis by simp
  next
    case True
    obtain v' args where c: "convert_value w cur (vals ! i) d = (v', args)"
      by (cases "convert_value w cur (vals ! i) d")
    obtain vals' calls where l: "conv_loop w cur ds (Suc i) (vals[i := v']) = (vals', calls)"
      by (cases "conv_loop w cur ds (Suc i) (vals[i := v'])")
    from Cons.IH [of "Suc i" "vals[i := v']"] l have "length vals' = length vals" by simp
    with True c l show ?thesis by simp
  qed
qed

lemma conv_loop_nth:
  "j < length vals \<Longrightarrow>
   fst (conv_loop w cur ds i vals) ! j =
     (if i \<le> j \<and> j < i + length ds then fst (convert_value w cur (vals ! j) (ds ! (j - i)))
      else vals ! j)"
proof (induction ds arbitrary: i vals)
  case Nil
  show ?case by auto
next
  case (Cons d ds)
  show ?case
  proof (cases "i < length vals")
    case False
    with Cons.prems show ?thesis by simp
  next
    case True
    obtain v' args where c: "convert_value w cur (vals ! i) d = (v', args)"
      by (cases "convert_value w cur (vals ! i) d")
    obtain vals' calls where l: "conv_loop w cur ds (Suc i) (vals[i := v']) = (vals', calls)"
      by (cases "conv_loop w cur ds (Suc i) (vals[i := v'])")
    have j': "j < length (vals[i := v'])" using Cons.prems by simp
    have ih: "vals' ! j =
      (if Suc i \<le> j \<and> j < Suc i + length ds
       then fst (convert_value w cur (vals[i := v'] ! j) (ds ! (j - Suc i)))
       else vals[i := v'] ! j)"
      using Cons.IH [OF j', of "Suc i"] l by simp
    have res: "fst (conv_loop w cur (d # ds) i vals) ! j = vals' ! j"
      using True c l by simp
    show ?thesis
    proof (cases "j = i")
      case True
      with ih res c \<open>i < length vals\<close> show ?thesis by simp
    next
      case False
      then have "(d # ds) ! (j - i) = ds ! (j - Suc i)" if "i \<le> j"
        using that by (simp add: nth_Cons')
      with False ih res show ?thesis by auto
    qed
  qed
qed

lemma conv_loop_calls:
  "set (snd (conv_loop w cur ds i vals)) =
     {(j, a). i \<le> j \<and> j < i + length ds \<and> j < length vals \<and>
              a \<in> set (snd (convert_value w cur (vals ! j) (ds ! (j - i))))}"
proof (induction ds arbitrary: i vals)
  case Nil
  show ?case by simp
next
  case (Cons d ds)
  show ?case
  proof (cases "i < length vals")
    case False
    then show ?thesis by auto
  next
    case True
    obtain v' args where c: "convert_value w cur (vals ! i) d = (v', args)"
      by (cases "convert_value w cur (vals ! i) d")
    obtain vals' calls where l: "conv_loop w cur ds (Suc i) (vals[i := v']) = (vals', calls)"
      by (cases "conv_loop w cur ds (Suc i) (vals[i := v'])")
    have ih: "set calls = {(j, a). Suc i \<le> j \<and> j < Suc i + length ds \<and> j < length vals \<and>
              a \<in> set (snd (convert_value w cur (vals[i := v'] ! j) (ds ! (j - Suc i))))}"
      using Cons.IH [of "Suc i" "vals[i := v']"] l by simp
    have idx: "(d # ds) ! (j - i) = ds ! (j - Suc i)" if "Suc i \<le> j" for j
      using that by (simp add: nth_Cons')
    have "set (snd (conv_loop w cur (d # ds) i vals)) = Pair i ` set args \<union> set calls"
      using True c l by simp
    also have "\<dots> = {(j, a). i \<le> j \<and> j < i + length (d # ds) \<and> j < length vals \<and>
              a \<in> set (snd (convert_value w cur (vals ! j) ((d # ds) ! (j - i))))}"
    proof (rule set_eqI, clarify)
      fix j a
      show "((j, a) \<in> Pair i ` set args \<union> set calls) =
            ((j, a) \<in> {(j, a). i \<le> j \<and> j < i + length (d # ds) \<and> j < length vals \<and>
              a \<in> set (snd (convert_value w cur (vals ! j) ((d # ds) ! (j - i))))})"
      proof (cases "j = i")
        case True
        with c \<open>i < length vals\<close> show ?thesis by (auto simp: ih)
      next
        case False
        with idx [of j] show ?thesis by (auto simp: ih)
      qed
    qed
    finally show ?thesis .
  qed
qed

lemma apply_output_converters_Some:
  "ds \<noteq> [] \<Longrightarrow>
   apply_output_converters w self cur (Some ds) =
     (self\<lparr>values_slot := PyList (fst (conv_loop w cur ds 0 (items (values_slot self))))\<rparr>,
      snd (conv_loop w cur ds 0 (items (values_slot self))))"
  by (cases ds) (simp_all add: apply_output_converters_def split_beta)

lemma convert_value_skip:
  "d = None \<or> v = VNone \<Longrightarrow> convert_value w cur v d = (v, [])"
  by (auto simp: convert_value_def split: option.splits)

lemma convert_value_found:
  "v \<noteq> VNone \<Longrightarrow> find_converter w cur v (type_code dsc) = Some f \<Longrightarrow>
   convert_value w cur v (Some dsc) =
     (case f (converter_arg v) of Inl e \<Rightarrow> v | Inr v' \<Rightarrow> v', [converter_arg v])"
  by (simp add: convert_value_def split: sum.splits)

text \<open>
  Claim C8.  For a description that is not empty and every position \<open>i\<close> of the row:
  the row keeps its length; a position beyond the description keeps its value; a
  position whose descriptor is \<^verbatim>\<open>None\<close> or whose value is \<^verbatim>\<open>None\<close> keeps its value and no
  converter is called for it; at any other position for which a converter \<open>f\<close> is
  found, \<open>f\<close> is called with the value of that position (text encoded first), and the
  position then holds the result of \<open>f\<close>, or its old value when \<open>f\<close> raised.  None of
  this depends on what happens at another position.
\<close>

theorem C8_converter_errors_discarded:
  assumes "ds \<noteq> []" and "i < length (items (values_slot self))"
  shows "case apply_output_converters w self cur (Some ds) of
     (self', calls) \<Rightarrow>
       length (items (values_slot self')) = length (items (values_slot self)) \<and>
       (length ds \<le> i \<longrightarrow> items (values_slot self') ! i = items (values_slot self) ! i) \<and>
       (i < length ds \<and> (ds ! i = None \<or> items (values_slot self) ! i = VNone) \<longrightarrow>
          items (values_slot self') ! i = items (values_slot self) ! i \<and> i \<notin> fst ` set calls) \<and>
       (\<forall>dsc f. i < length ds \<and> ds ! i = Some dsc \<and> items (values_slot self) ! i \<noteq> VNone \<and>
           find_converter w cur (items (values_slot self) ! i) (type_code dsc) = Some f \<longrightarrow>
          (i, converter_arg (items (values_slot self) ! i)) \<in> set calls \<and>
          items (values_slot self') ! i =
            (case f (converter_arg (items (values_slot self) ! i)) of
               Inl e \<Rightarrow> items (values_slot self) ! i
             | Inr v \<Rightarrow> v))"
proof -
  let ?vals = "items (values_slot self)"
  let ?loop = "conv_loop w cur ds 0 ?vals"
  have len: "length (fst ?loop) = length ?vals" by (rule conv_loop_length)
  have nth: "fst ?loop ! i =
      (if i < length ds then fst (convert_value w cur (?vals ! i) (ds ! i)) else ?vals ! i)"
    using conv_loop_nth [OF assms(2), of w cur ds 0] by simp
  have calls: "set (snd ?loop) =
      {(j, a). j < length ds \<and> j < length ?vals \<and>
               a \<in> set (snd (convert_value w cur (?vals ! j) (ds ! j)))}"
    using conv_loop_calls [of w cur ds 0 ?vals] by simp
  have beyond: "fst ?loop ! i = ?vals ! i" if "length ds \<le> i"
    using that nth by simp
  have skipped: "fst ?loop ! i = ?vals ! i \<and> i \<notin> fst ` set (snd ?loop)"
    if "i < length ds" and "ds ! i = None \<or> ?vals ! i = VNone"
    using that nth calls convert_value_skip [of "ds ! i" "?vals ! i" w cur] by auto
  have found: "(i, converter_arg (?vals ! i)) \<in> set (snd ?loop) \<and>
      fst ?loop ! i = (case f (converter_arg (?vals ! i)) of Inl e \<Rightarrow> ?vals ! i | Inr v \<Rightarrow> v)"
    if "i < length ds" and "ds ! i = Some dsc" and "?vals ! i \<noteq> VNone"
      and "find_converter w cur (?vals ! i) (type_code dsc) = Some f" for dsc f
    using that nth calls assms(2) convert_value_found [of "?vals ! i" w cur dsc f] by simp
  from len beyond skipped found show ?thesis
    unfolding apply_output_converters_Some [OF assms(1)] by simp blast
qed

theorem C8_witness:
  "[Some \<lparr>col_name = ''a'', type_code = 4\<rparr>, Some \<lparr>col_name = ''b'', type_code = 12\<rparr>] \<noteq> []
   \<and> 0 < length (items (values_slot (Row_init None None (PyTuple [VInt 5, VInt 6]) None)))
   \<and> items (values_slot (fst (apply_output_converters (-9)
         (Row_init None None (PyTuple [VInt 5, VInt 6]) None)
         \<lparr>lowercase = None,
           get_output_converter =
             (\<lambda>t. if t = 4 then Some (\<lambda>v. Inl ConverterError)
                  else if t = 12 then Some (\<lambda>v. Inr (VInt 42)) else None)\<rparr>
         (Some [Some \<lparr>col_name = ''a'', type_code = 4\<rparr>,
                Some \<lparr>col_name = ''b'', type_code = 12\<rparr>])))) ! 0 = VInt 5
   \<and> items (values_slot (fst (apply_output_converters (-9)
         (Row_init None None (PyTuple [VInt 5, VInt 6]) None)
         \<lparr>lowercase = None,
           get_output_converter =
             (\<lambda>t. if t = 4 then Some (\<lambda>v. Inl ConverterError)
                  else if t = 12 then Some (\<lambda>v. Inr (VInt 42)) else None)\<rparr>
         (Some [Some \<lparr>col_name = ''a'', type_code = 4\<rparr>,
                Some \<lparr>col_name = ''b'', type_code = 12\<rparr>])))) ! 1 = VInt 42"
proof -
  let ?ds = "[Some \<lparr>col_name = ''a'', type_code = 4\<rparr>, Some \<lparr>col_name = ''b'', type_code = 12\<rparr>]"
  let ?self = "Row_init None None (PyTuple [VInt 5, VInt 6]) None"
  let ?cur = "\<lparr>lowercase = None,
           get_output_converter =
             (\<lambda>t. if t = 4 then Some (\<lambda>v. Inl ConverterError)
                  else if t = (12::int) then Some (\<lambda>v. Inr (VInt 42)) else None)\<rparr>"
  have h1: "?ds \<noteq> []" by simp
  have h2: "0 < length (items (values_slot ?self))" by (simp add: Row_init_def)
  have h3: "1 < length (items (values_slot ?self))" by (simp add: Row_init_def)
  obtain self' calls where a: "apply_output_converters (-9) ?self ?cur (Some ?ds) = (self', calls)"
    by (cases "apply_output_converters (-9) ?self ?cur (Some ?ds)")
  have p0: "items (values_slot self') ! 0 = VInt 5"
    using C8_converter_errors_discarded [OF h1 h2, of "-9" ?cur] unfolding a
    by (simp add: find_converter_def Row_init_def)
  have p1: "items (values_slot self') ! 1 = VInt 42"
    using C8_converter_errors_discarded [OF h1 h3, of "-9" ?cur] unfolding a
    by (simp add: find_converter_def Row_init_def)
  from h1 h2 p0 p1 show ?thesis unfolding a by simp
qed

text \<open>
  Claim C9 says that the value sequence, the column map and the descriptors of a row
  have the same length, from construction on.  The constructor stores what it is given
  and checks nothing: it builds a row of three values with a column map of one entry.
\<close>

theorem C9_counterexample:
  "length (items (values_slot (Row_init None (Some [Some \<lparr>col_name = ''a'', type_code = 4\<rparr>])
       (PyTuple [VInt 1, VInt 2, VInt 3]) (Some [(''a'', 0)])))) = 3
   \<and> column_map (Row_init None (Some [Some \<lparr>col_name = ''a'', type_code = 4\<rparr>])
       (PyTuple [VInt 1, VInt 2, VInt 3]) (Some [(''a'', 0)])) = Some [(''a'', 0)]
   \<and> length [(''a'', 0::int)] = 1
   \<and> length [Some \<lparr>col_name = ''a'', type_code = 4\<rparr>] = 1"
  by (simp add: Row_init_def)

text \<open>
  Claim C9, amended.  When the caller gives the constructor a value sequence, a column
  map and descriptors of the same length, the row holds that sequence and that map, and
  \<^verbatim>\<open>_apply_output_converters\<close>, the one operation that changes a row, keeps the length of
  the value sequence and leaves the column map alone, whatever description it is given.
\<close>

theorem C9_lengths_preserved:
  assumes "length (items vals) = length cm" and "length cm = length ds"
  shows "let r = Row_init cur (Some ds) vals (Some cm);
             r' = fst (apply_output_converters w r cur' description)
         in values_slot r = vals \<and> column_map r = Some cm \<and>
            length (items (values_slot r)) = length ds \<and>
            length (items (values_slot r')) = length cm \<and>
            length (items (values_slot r')) = length ds \<and>
            column_map r' = Some cm"
proof -
  define r where "r = Row_init cur (Some ds) vals (Some cm)"
  have keep: "length (items (values_slot (fst (apply_output_converters w r cur' description))))
          = length (items (values_slot r))
        \<and> column_map (fst (apply_output_converters w r cur' description)) = column_map r"
  proof (cases description)
    case None
    then show ?thesis by (simp add: apply_output_converters_def)
  next
    case (Some dl)
    show ?thesis
    proof (cases "dl = []")
      case True
      with Some show ?thesis by (simp add: apply_output_converters_def)
    next
      case False
      with Some show ?thesis
        by (simp add: apply_output_converters_Some conv_loop_length)
    qed
  qed
  have "values_slot r = vals" and "column_map r = Some cm"
    by (simp_all add: r_def Row_init_def)
  with keep assms show ?thesis
    unfolding Let_def r_def [symmetric] by simp
qed

theorem C9_witness:
  "length (items (PyTuple [VInt 5, VInt 6])) = length [(''a'', 0::int), (''b'', 1)]
   \<and> length [(''a'', 0::int), (''b'', 1)]
       = length [Some \<lparr>col_name = ''a'', type_code = 4\<rparr>, Some \<lparr>col_name = ''b'', type_code = 12\<rparr>]
   \<and> length (items (values_slot (fst (apply_output_converters (-9)
         (Row_init None
            (Some [Some \<lparr>col_name = ''a'', type_code = 4\<rparr>, Some \<lparr>col_name = ''b'', type_code = 12\<rparr>])
            (PyTuple [VInt 5, VInt 6]) (Some [(''a'', 0), (''b'', 1)]))
         \<lparr>lowercase = None, get_output_converter = (\<lambda>t. Some (\<lambda>v. Inr (VInt 42)))\<rparr>
         (Some [Some \<lparr>col_name = ''a'', type_code = 4\<rparr>,
                Some \<lparr>col_name = ''b'', type_code = 12\<rparr>]))))) = 2"
proof -
  have h1: "length (items (PyTuple [VInt 5, VInt 6])) = length [(''a'', 0::int), (''b'', 1)]"
    by simp
  have h2: "length [(''a'', 0::int), (''b'', 1)]
       = length [Some \<lparr>col_name = ''a'', type_code = 4\<rparr>, Some \<lparr>col_name = ''b'', type_code = 12\<rparr>]"
    by simp
  from C9_lengths_preserved [OF h1 h2, of None "-9"
      "\<lparr>lowercase = None, get_output_converter = (\<lambda>t. Some (\<lambda>v. Inr (VInt 42)))\<rparr>"
      "Some [Some \<lparr>col_name = ''a'', type_code = 4\<rparr>, Some \<lparr>col_name = ''b'', type_code = 12\<rparr>]"]
  show ?thesis
    by (simp add: Let_def)
qed

end
